theory Spec2Isabelle
  imports Complex_Main
begin

section \<open>Text preparation for the handwriting generator (run.py)\<close>

text \<open>
  Python strings are sequences of Unicode code points, and \<open>len\<close> counts code points.
  A character is therefore modelled by its code point (a natural number) and a string by
  the list of its code points.
\<close>

type_synonym uchar = nat
type_synonym ustring = "nat list"

abbreviation NUL :: uchar where "NUL \<equiv> 0"
abbreviation TAB :: uchar where "TAB \<equiv> 9"
abbreviation NEWLINE :: uchar where "NEWLINE \<equiv> 10"
abbreviation SPACE :: uchar where "SPACE \<equiv> 32"
abbreviation DQUOTE :: uchar where "DQUOTE \<equiv> 34"
abbreviation SQUOTE :: uchar where "SQUOTE \<equiv> 39"
abbreviation HYPHEN :: uchar where "HYPHEN \<equiv> 45"
abbreviation PERIOD :: uchar where "PERIOD \<equiv> 46"
abbreviation BACKTICK :: uchar where "BACKTICK \<equiv> 96"
abbreviation LEFT_SQUOTE :: uchar where "LEFT_SQUOTE \<equiv> 8216"
abbreviation RIGHT_SQUOTE :: uchar where "RIGHT_SQUOTE \<equiv> 8217"
abbreviation EN_DASH :: uchar where "EN_DASH \<equiv> 8211"
abbreviation EM_DASH :: uchar where "EM_DASH \<equiv> 8212"
abbreviation ELLIPSIS :: uchar where "ELLIPSIS \<equiv> 8230"

subsection \<open>validate_text\<close>

text \<open>
  \<open>VALID_CHARS = set(alphabet)\<close> comes from the module \<open>drawing\<close>, which is not part of
  the sources at hand; it is a parameter of the model. The loop of \<open>validate_text\<close>
  carries the list \<open>cleaned\<close> and the set \<open>invalid_chars\<close>; the function returns the joined
  string together with the set that the warning prints (no warning when it is empty).

  The first substitution test of the source, \<open>char in '""'\<close>, holds two ASCII double quotes
  (byte 0x22), so it is a test for the straight double quote.
\<close>

fun validate_loop :: "uchar set \<Rightarrow> ustring \<Rightarrow> ustring \<Rightarrow> uchar set \<Rightarrow> ustring \<times> uchar set" where
  "validate_loop VALID_CHARS [] cleaned invalid_chars = (cleaned, invalid_chars)"
| "validate_loop VALID_CHARS (ch # text) cleaned invalid_chars =
     (if ch \<in> VALID_CHARS then validate_loop VALID_CHARS text (cleaned @ [ch]) invalid_chars
      else if ch = NEWLINE then validate_loop VALID_CHARS text (cleaned @ [ch]) invalid_chars
      else if ch = TAB then validate_loop VALID_CHARS text (cleaned @ [SPACE]) invalid_chars
      else if ch \<in> {DQUOTE}
        then validate_loop VALID_CHARS text (cleaned @ [DQUOTE]) (insert ch invalid_chars)
      else if ch \<in> {SQUOTE, LEFT_SQUOTE, RIGHT_SQUOTE, BACKTICK}
        then validate_loop VALID_CHARS text (cleaned @ [SQUOTE]) (insert ch invalid_chars)
      else if ch \<in> {EN_DASH, EM_DASH}
        then validate_loop VALID_CHARS text (cleaned @ [HYPHEN]) (insert ch invalid_chars)
      else if ch \<in> {ELLIPSIS}
        then validate_loop VALID_CHARS text (cleaned @ [PERIOD, PERIOD, PERIOD])
               (insert ch invalid_chars)
      else validate_loop VALID_CHARS text cleaned (insert ch invalid_chars))"

definition validate_text :: "uchar set \<Rightarrow> ustring \<Rightarrow> ustring \<times> uchar set" where
  "validate_text VALID_CHARS text = validate_loop VALID_CHARS text [] {}"

text \<open>
  The characters that \<open>validate_text\<close> can emit in place of another one: the space for a
  tab and the targets of the substitutions. The data model of the specification requires
  every replacement to be a supported character.
\<close>

definition replacements_supported :: "uchar set \<Rightarrow> bool" where
  "replacements_supported VALID_CHARS =
     ({SPACE, DQUOTE, SQUOTE, HYPHEN, PERIOD} \<subseteq> VALID_CHARS)"

text \<open>
  An instance of the alphabet parameter for evaluating the model on concrete inputs:
  NUL, the space, a few punctuation marks, the digits and the Latin letters without
  Q, X and Z in upper case.
\<close>

definition sample_alphabet :: "uchar set" where
  "sample_alphabet =
     {NUL, SPACE, 33, DQUOTE, 35, SQUOTE, 40, 41, 44, HYPHEN, PERIOD, 58, 59, 63} \<union>
     {48..57} \<union> {65..80} \<union> {82..87} \<union> {89} \<union> {97..122}"

subsection \<open>Character classes\<close>

text \<open>
  \<open>str.strip()\<close> and \<open>str.isspace()\<close> use the Unicode whitespace characters; these are
  all of them.
\<close>

definition py_isspace :: "uchar \<Rightarrow> bool" where
  "py_isspace c =
     ((9 \<le> c \<and> c \<le> 13) \<or> (28 \<le> c \<and> c \<le> 32) \<or> c = 133 \<or> c = 160 \<or> c = 5760 \<or>
      (8192 \<le> c \<and> c \<le> 8202) \<or> c = 8232 \<or> c = 8233 \<or> c = 8239 \<or> c = 8287 \<or> c = 12288)"

text \<open>\<open>s.strip() == ''\<close>, that is \<open>not s.strip()\<close>: every character of \<open>s\<close> is whitespace.\<close>

definition strip_is_empty :: "ustring \<Rightarrow> bool" where
  "strip_is_empty s = list_all py_isspace s"

text \<open>
  The module \<open>textwrap\<close> has its own, ASCII-only whitespace:
  \<open>_whitespace = '\t\n\x0b\x0c\r '\<close>.
\<close>

definition is_whitespace :: "uchar \<Rightarrow> bool" where
  "is_whitespace c = (c = 9 \<or> c = 10 \<or> c = 11 \<or> c = 12 \<or> c = 13 \<or> c = 32)"

text \<open>
  The regular expression of \<open>textwrap\<close> uses the classes \<open>\w\<close> (alphanumeric or
  underscore) and \<open>\d\<close> (decimal digit) of \<open>re\<close> on \<open>str\<close> patterns. On ASCII they are
  \<open>[0-9A-Za-z_]\<close> and \<open>[0-9]\<close>; above ASCII they are read from the Unicode database,
  which is a parameter of the model.
\<close>

record unicode_db =
  alnum :: "uchar \<Rightarrow> bool"
  decimal :: "uchar \<Rightarrow> bool"

definition is_word :: "unicode_db \<Rightarrow> uchar \<Rightarrow> bool" where
  "is_word U c =
     (if c < 128
      then (48 \<le> c \<and> c \<le> 57) \<or> (65 \<le> c \<and> c \<le> 90) \<or> (97 \<le> c \<and> c \<le> 122) \<or> c = 95
      else alnum U c)"

definition is_decimal :: "unicode_db \<Rightarrow> uchar \<Rightarrow> bool" where
  "is_decimal U c = (if c < 128 then 48 \<le> c \<and> c \<le> 57 else decimal U c)"

text \<open>\<open>letter = [^\d\W]\<close> and \<open>word_punct = [\w!"\'&.,?]\<close>.\<close>

definition is_letter :: "unicode_db \<Rightarrow> uchar \<Rightarrow> bool" where
  "is_letter U c = (is_word U c \<and> \<not> is_decimal U c)"

definition is_word_punct :: "unicode_db \<Rightarrow> uchar \<Rightarrow> bool" where
  "is_word_punct U c =
     (is_word U c \<or> c = 33 \<or> c = DQUOTE \<or> c = SQUOTE \<or> c = 38 \<or> c = PERIOD \<or> c = 44 \<or> c = 63)"

text \<open>A database for ASCII-only evaluation: nothing above ASCII is alphanumeric.\<close>

definition ascii_db :: unicode_db where
  "ascii_db = \<lparr>alnum = (\<lambda>c. False), decimal = (\<lambda>c. False)\<rparr>"

subsection \<open>textwrap.wrap (Python 3.11 standard library), as run.py calls it\<close>

text \<open>
  \<open>wrap_text\<close> calls \<open>textwrap.wrap(para, width=max_chars, break_long_words=True)\<close>, that
  is \<open>TextWrapper.wrap\<close> with the defaults \<open>expand_tabs\<close>, \<open>replace_whitespace\<close>,
  \<open>drop_whitespace\<close>, \<open>break_on_hyphens\<close> true, \<open>fix_sentence_endings\<close> false, empty
  indents, \<open>tabsize = 8\<close> and \<open>max_lines = None\<close>. Only that configuration is modelled.
\<close>

text \<open>\<open>str.expandtabs(tabsize)\<close>, with the column counter of the C implementation.\<close>

fun expandtabs :: "nat \<Rightarrow> ustring \<Rightarrow> nat \<Rightarrow> ustring" where
  "expandtabs tabsize [] line_pos = []"
| "expandtabs tabsize (ch # text) line_pos =
     (if ch = TAB then
        (if tabsize > 0
         then (let incr = tabsize - (line_pos mod tabsize)
               in replicate incr SPACE @ expandtabs tabsize text (line_pos + incr))
         else expandtabs tabsize text line_pos)
      else if ch = NEWLINE \<or> ch = 13 then ch # expandtabs tabsize text 0
      else ch # expandtabs tabsize text (line_pos + 1))"

definition munge_whitespace :: "ustring \<Rightarrow> ustring" where
  "munge_whitespace text =
     map (\<lambda>c. if is_whitespace c then SPACE else c) (expandtabs 8 text 0)"

text \<open>
  \<open>wordsep_re\<close>. A position of the subject string is given by the characters before it,
  nearest first (\<open>behind\<close>), and the characters from it on (\<open>rest\<close>).

  \<open>emdash_here\<close> is \<open>(?<=[\w!"\'&.,?]) -{2,} (?=\w)\<close> tried at a position, as a test: the
  greedy run of hyphens must be followed by a word character, and giving back hyphens
  cannot help, since the next character is then a hyphen.
\<close>

definition emdash_here :: "unicode_db \<Rightarrow> ustring \<Rightarrow> ustring \<Rightarrow> bool" where
  "emdash_here U behind rest =
     (case behind of
        [] \<Rightarrow> False
      | p # _ \<Rightarrow>
          is_word_punct U p \<and>
          (let k = length (takeWhile (\<lambda>c. c = HYPHEN) rest)
           in 2 \<le> k \<and> (case drop k rest of [] \<Rightarrow> False | c # _ \<Rightarrow> is_word U c)))"

text \<open>
  \<open>-(?: (?<=L{2}-) | (?<=L-L-)) (?= L -? L)\<close> with \<open>L\<close> the letters: the hyphen of a
  hyphenated word, after which the chunk ends.
\<close>

definition hyphen_break :: "unicode_db \<Rightarrow> ustring \<Rightarrow> ustring \<Rightarrow> bool" where
  "hyphen_break U behind rest =
     (case rest of
        [] \<Rightarrow> False
      | c # r \<Rightarrow>
          c = HYPHEN \<and>
          (case behind of
             p1 # p2 # ps \<Rightarrow>
               (is_letter U p2 \<and> is_letter U p1) \<or>
               (case ps of
                  [] \<Rightarrow> False
                | p3 # _ \<Rightarrow> is_letter U p3 \<and> p2 = HYPHEN \<and> is_letter U p1)
           | _ \<Rightarrow> False) \<and>
          (case r of
             [] \<Rightarrow> False
           | x # r' \<Rightarrow>
               is_letter U x \<and>
               (case r' of
                  [] \<Rightarrow> False
                | y # r'' \<Rightarrow>
                    (y = HYPHEN \<and> (case r'' of [] \<Rightarrow> False | z # _ \<Rightarrow> is_letter U z)) \<or>
                    is_letter U y)))"

text \<open>
  The third alternative, \<open>[^ws]+? (?: hyphenated | (?=[ws]|\Z) | (?<=wp)(?=-{2,}\w))\<close>:
  after the first character of the word, the lazy repetition takes one more character at
  a time until one of the three endings matches, tried in that order. \<open>word_tail\<close> counts
  the characters of the match after the first one, the hyphen of a hyphenated ending
  included.
\<close>

fun word_tail :: "unicode_db \<Rightarrow> ustring \<Rightarrow> ustring \<Rightarrow> nat" where
  "word_tail U behind [] = 0"
| "word_tail U behind (c # cs) =
     (if hyphen_break U behind (c # cs) then 1
      else if is_whitespace c then 0
      else if emdash_here U behind (c # cs) then 0
      else Suc (word_tail U (c # behind) cs))"

text \<open>
  \<open>wordsep_re.split(text)\<close> without the empty strings: every position starts a match (a
  run of whitespace, an em-dash between words, or a word), so the pieces between the
  matches are all empty and the chunks are the successive matches.
\<close>

fun wordsep_split :: "unicode_db \<Rightarrow> ustring \<Rightarrow> ustring \<Rightarrow> ustring list" where
  "wordsep_split U behind [] = []"
| "wordsep_split U behind (c # cs) =
     (let m = (if is_whitespace c then length (takeWhile is_whitespace cs)
               else if emdash_here U behind (c # cs)
                 then length (takeWhile (\<lambda>x. x = HYPHEN) cs)
               else word_tail U (c # behind) cs);
          chunk = c # take m cs
      in chunk # wordsep_split U (rev chunk @ behind) (drop m cs))"

definition split_chunks :: "unicode_db \<Rightarrow> ustring \<Rightarrow> ustring list" where
  "split_chunks U text = filter (\<lambda>c. c \<noteq> []) (wordsep_split U [] (munge_whitespace text))"

text \<open>
  Slices \<open>s[:e]\<close> and \<open>s[e:]\<close> for an integer \<open>e\<close>: a negative bound counts from the end,
  and bounds outside the string are clipped.
\<close>

definition slice_bound :: "int \<Rightarrow> 'a list \<Rightarrow> nat" where
  "slice_bound e s = (if e < 0 then nat (int (length s) + e) else nat e)"

definition slice_to :: "int \<Rightarrow> 'a list \<Rightarrow> 'a list" where
  "slice_to e s = take (slice_bound e s) s"

definition slice_from :: "int \<Rightarrow> 'a list \<Rightarrow> 'a list" where
  "slice_from e s = drop (slice_bound e s) s"

text \<open>\<open>s.rfind(x, 0, e)\<close>: the highest index of \<open>x\<close> in \<open>s[0:e]\<close>, or -1.\<close>

definition rfind :: "'a \<Rightarrow> 'a list \<Rightarrow> int \<Rightarrow> int" where
  "rfind x s e =
     (let pre = slice_to e s
      in if x \<in> set pre
         then int (length pre) - 1 - int (length (takeWhile (\<lambda>c. c \<noteq> x) (rev pre)))
         else - 1)"

text \<open>
  \<open>_handle_long_word\<close> with \<open>break_long_words\<close> and \<open>break_on_hyphens\<close> set. The chunks are
  kept in reading order, so the top of the reversed stack of the source,
  \<open>reversed_chunks[-1]\<close>, is the head \<open>chunk\<close> of the list, given with the chunks after it.
  The result is the new pair of chunks and \<open>cur_line\<close>.
\<close>

definition handle_long_word ::
  "ustring \<Rightarrow> ustring list \<Rightarrow> ustring list \<Rightarrow> int \<Rightarrow> int \<Rightarrow> ustring list \<times> ustring list" where
  "handle_long_word chunk chunks cur_line cur_len width =
     (let space_left = (if width < 1 then 1 else width - cur_len);
          hyphen = rfind HYPHEN chunk space_left;
          end = (if int (length chunk) > space_left \<and> hyphen > 0 \<and>
                    (\<exists>c\<in>set (slice_to hyphen chunk). c \<noteq> HYPHEN)
                 then hyphen + 1 else space_left)
      in (slice_from end chunk # chunks, cur_line @ [slice_to end chunk]))"

text \<open>
  The inner loop of \<open>_wrap_chunks\<close>: move chunks to the current line while they fit.
  State and result: the remaining chunks, \<open>cur_line\<close> and \<open>cur_len\<close>.
\<close>

fun take_fitting ::
  "nat \<Rightarrow> ustring list \<Rightarrow> ustring list \<Rightarrow> nat \<Rightarrow> ustring list \<times> ustring list \<times> nat" where
  "take_fitting width [] cur_line cur_len = ([], cur_line, cur_len)"
| "take_fitting width (c # chunks) cur_line cur_len =
     (if cur_len + length c \<le> width
      then take_fitting width chunks (cur_line @ [c]) (cur_len + length c)
      else (c # chunks, cur_line, cur_len))"

text \<open>
  One pass of the outer loop of \<open>_wrap_chunks\<close>, from a non-empty list of chunks to the
  chunks and lines after the pass. The indents are empty, so the width of every line is
  \<open>self.width\<close>.
\<close>

definition wrap_pass :: "nat \<Rightarrow> ustring list \<Rightarrow> ustring list \<Rightarrow> ustring list \<times> ustring list" where
  "wrap_pass width chunks lines =
     (let chunks1 = (if strip_is_empty (hd chunks) \<and> lines \<noteq> [] then tl chunks else chunks);
          (chunks2, cur_line2, cur_len) = take_fitting width chunks1 [] 0;
          (chunks3, cur_line3) =
             (case chunks2 of
                [] \<Rightarrow> (chunks2, cur_line2)
              | c # cs \<Rightarrow>
                  if length c > width
                  then handle_long_word c cs cur_line2 (int cur_len) (int width)
                  else (chunks2, cur_line2));
          cur_line4 = (if cur_line3 \<noteq> [] \<and> strip_is_empty (last cur_line3)
                       then butlast cur_line3 else cur_line3)
      in (chunks3, if cur_line4 \<noteq> [] then lines @ [concat cur_line4] else lines))"

text \<open>
  The outer loop. The source enters it only after \<open>self.width <= 0\<close> has raised, so the
  width is a natural number here.
\<close>

function wrap_loop :: "nat \<Rightarrow> ustring list \<Rightarrow> ustring list \<Rightarrow> ustring list" where
  "wrap_loop width chunks lines =
     (if chunks = [] then lines
      else (case wrap_pass width chunks lines of
              (chunks', lines') \<Rightarrow> wrap_loop width chunks' lines'))"
  by pat_completeness auto

text \<open>
  Every pass of the outer loop removes a chunk or shortens one: the number of characters
  plus the number of chunks decreases.
\<close>

lemma take_fitting_weight:
  "take_fitting width chunks cur_line cur_len = (chunks', cur_line', cur_len') \<Longrightarrow>
   (\<Sum>c\<leftarrow>chunks'. Suc (length c)) \<le> (\<Sum>c\<leftarrow>chunks. Suc (length c))"
  by (induction chunks arbitrary: cur_line cur_len) (fastforce split: if_splits)+

lemma handle_long_word_weight:
  "handle_long_word c cs cur_line cur_len width = (chunks', cur_line') \<Longrightarrow>
   (\<Sum>x\<leftarrow>chunks'. Suc (length x)) \<le> (\<Sum>x\<leftarrow>c # cs. Suc (length x))"
  by (auto simp add: handle_long_word_def Let_def slice_from_def)

lemma handle_long_word_progress:
  assumes "handle_long_word c cs [] 0 (int width) = (chunks', cur_line')" and "length c > width"
  shows "(\<Sum>x\<leftarrow>chunks'. Suc (length x)) < (\<Sum>x\<leftarrow>c # cs. Suc (length x))"
proof -
  define space_left where "space_left = (if int width < 1 then 1 else int width - 0)"
  define hyphen where "hyphen = rfind HYPHEN c space_left"
  define e where "e = (if int (length c) > space_left \<and> hyphen > 0 \<and>
                    (\<exists>x\<in>set (slice_to hyphen c). x \<noteq> HYPHEN)
                 then hyphen + 1 else space_left)"
  have "1 \<le> space_left" by (simp add: space_left_def)
  then have "1 \<le> e" by (simp add: e_def)
  then have "0 < slice_bound e c" by (simp add: slice_bound_def)
  moreover have "c \<noteq> []" using assms(2) by auto
  ultimately have "length (slice_from e c) < length c"
    by (simp add: slice_from_def)
  moreover have "handle_long_word c cs [] 0 (int width) = (slice_from e c # cs, [] @ [slice_to e c])"
    by (simp only: handle_long_word_def Let_def e_def hyphen_def space_left_def)
  then have "chunks' = slice_from e c # cs"
    using assms(1) by simp
  ultimately show ?thesis by simp
qed

lemma wrap_pass_weight:
  assumes "chunks \<noteq> []" and "wrap_pass width chunks lines = (chunks', lines')"
  shows "(\<Sum>c\<leftarrow>chunks'. Suc (length c)) < (\<Sum>c\<leftarrow>chunks. Suc (length c))"
proof -
  obtain c cs where chunks: "chunks = c # cs" using assms(1) by (cases chunks) auto
  define chunks1 where
    "chunks1 = (if strip_is_empty (hd chunks) \<and> lines \<noteq> [] then tl chunks else chunks)"
  obtain chunks2 cur_line2 cur_len where tf: "take_fitting width chunks1 [] 0 = (chunks2, cur_line2, cur_len)"
    by (cases "take_fitting width chunks1 [] 0") auto
  define r where "r = (case chunks2 of
                [] \<Rightarrow> (chunks2, cur_line2)
              | c # cs \<Rightarrow>
                  if length c > width
                  then handle_long_word c cs cur_line2 (int cur_len) (int width)
                  else (chunks2, cur_line2))"
  have res: "chunks' = fst r"
    using assms(2) tf
    by (simp add: wrap_pass_def chunks1_def [symmetric] r_def [symmetric] Let_def split: prod.splits)
  have w3: "(\<Sum>c\<leftarrow>fst r. Suc (length c)) \<le> (\<Sum>c\<leftarrow>chunks2. Suc (length c))"
  proof (cases chunks2)
    case Nil
    then show ?thesis by (simp add: r_def)
  next
    case (Cons k ks)
    show ?thesis
    proof (cases "length k > width")
      case True
      obtain a b where h: "handle_long_word k ks cur_line2 (int cur_len) (int width) = (a, b)"
        by (cases "handle_long_word k ks cur_line2 (int cur_len) (int width)") auto
      from handle_long_word_weight [OF h] show ?thesis
        using Cons True h by (simp add: r_def)
    next
      case False
      then show ?thesis using Cons by (simp add: r_def)
    qed
  qed
  have w2: "(\<Sum>c\<leftarrow>chunks2. Suc (length c)) \<le> (\<Sum>c\<leftarrow>chunks1. Suc (length c))"
    using take_fitting_weight [OF tf] .
  show ?thesis
  proof (cases "strip_is_empty (hd chunks) \<and> lines \<noteq> []")
    case True
    then have "chunks1 = cs" by (simp add: chunks1_def chunks)
    then show ?thesis using w2 w3 res chunks by simp
  next
    case False
    then have c1: "chunks1 = c # cs" by (simp add: chunks1_def chunks)
    show ?thesis
    proof (cases "length c \<le> width")
      case True
      then have "take_fitting width cs [c] (length c) = (chunks2, cur_line2, cur_len)"
        using tf c1 by simp
      from take_fitting_weight [OF this] show ?thesis using w3 res chunks by simp
    next
      case False
      then have "chunks2 = c # cs" "cur_line2 = []" "cur_len = 0"
        using tf c1 by simp_all
      then have "handle_long_word c cs [] 0 (int width) = r"
        using False by (simp add: r_def)
      then have "handle_long_word c cs [] 0 (int width) = (fst r, snd r)" by simp
      from handle_long_word_progress [OF this] False show ?thesis
        using res chunks by simp
    qed
  qed
qed

termination wrap_loop
proof (relation "measure (\<lambda>(width, chunks, lines). \<Sum>c\<leftarrow>chunks. Suc (length c))")
  show "wf (measure (\<lambda>(width, chunks, lines). \<Sum>c\<leftarrow>chunks. Suc (length c)))"
    by simp
next
  fix width :: nat and chunks lines chunks' lines' :: "ustring list"
  assume "chunks \<noteq> []" and "(chunks', lines') = wrap_pass width chunks lines"
  then have "(\<Sum>c\<leftarrow>chunks'. Suc (length c)) < (\<Sum>c\<leftarrow>chunks. Suc (length c))"
    using wrap_pass_weight [of chunks width lines chunks' lines'] by simp
  then show "((width, chunks', lines'), (width, chunks, lines))
      \<in> measure (\<lambda>(width, chunks, lines). \<Sum>c\<leftarrow>chunks. Suc (length c))"
    by simp
qed

text \<open>
  \<open>TextWrapper.wrap\<close>: split into chunks, then \<open>_wrap_chunks\<close>, which raises \<open>ValueError\<close>
  for a width below 1 before it looks at the chunks.
\<close>

datatype error = ValueError | ZeroDivisionError | OverflowError

definition wrap_chunks :: "int \<Rightarrow> ustring list \<Rightarrow> error + ustring list" where
  "wrap_chunks width chunks =
     (if width \<le> 0 then Inl ValueError else Inr (wrap_loop (nat width) chunks []))"

definition textwrap_wrap :: "unicode_db \<Rightarrow> ustring \<Rightarrow> int \<Rightarrow> error + ustring list" where
  "textwrap_wrap U text width = wrap_chunks width (split_chunks U text)"

subsection \<open>wrap_text\<close>

text \<open>\<open>text.split('\n')\<close>: the paragraphs between newlines, empty ones included.\<close>

fun split_newline :: "ustring \<Rightarrow> ustring list" where
  "split_newline [] = [[]]"
| "split_newline (c # cs) =
     (if c = NEWLINE then [] # split_newline cs
      else (case split_newline cs of
              [] \<Rightarrow> [[c]]
            | p # ps \<Rightarrow> (c # p) # ps))"

text \<open>The loop of \<open>wrap_text\<close> over the paragraphs, with the list \<open>lines\<close> built so far.\<close>

fun wrap_paragraphs ::
  "unicode_db \<Rightarrow> int \<Rightarrow> ustring list \<Rightarrow> ustring list \<Rightarrow> error + ustring list" where
  "wrap_paragraphs U max_chars [] lines = Inr lines"
| "wrap_paragraphs U max_chars (para # paragraphs) lines =
     (if strip_is_empty para then wrap_paragraphs U max_chars paragraphs (lines @ [[]])
      else (case textwrap_wrap U para max_chars of
              Inl e \<Rightarrow> Inl e
            | Inr wrapped \<Rightarrow>
                wrap_paragraphs U max_chars paragraphs
                  (lines @ (if wrapped \<noteq> [] then wrapped else [[]]))))"

definition wrap_text :: "unicode_db \<Rightarrow> ustring \<Rightarrow> int \<Rightarrow> error + ustring list" where
  "wrap_text U text max_chars =
     (let max_chars = min max_chars 75
      in wrap_paragraphs U max_chars (split_newline text) [])"

subsection \<open>Python floats\<close>

text \<open>
  The arithmetic of \<open>wrap_text_to_width\<close> is float arithmetic. A Python float is an IEEE 754
  binary64 number. A finite float is modelled by its exact rational value (the two zeros
  are one value: no operation below tells them apart), an infinity by \<open>Infinite\<close> (its
  sign is not kept: dividing by an infinity gives a zero and \<open>int\<close> of an infinity raises,
  whatever the sign). An operation returns its exact result rounded to the nearest
  binary64 number, ties to the even significand.

  \<open>bit_length n\<close> is the number of binary digits of a positive integer, and
  \<open>binary_exponent x\<close> the exponent \<open>e\<close> with \<open>2^e \<le> |x| < 2^(e+1)\<close>.
\<close>

function bit_length :: "int \<Rightarrow> nat" where
  "bit_length n = (if n \<le> 0 then 0 else Suc (bit_length (n div 2)))"
  by pat_completeness auto
termination
  by (relation "measure nat") auto

declare bit_length.simps [simp del]

definition binary_exponent :: "rat \<Rightarrow> int" where
  "binary_exponent x =
     (let a = \<bar>x\<bar>
      in if 1 \<le> a then int (bit_length \<lfloor>a\<rfloor>) - 1
         else - int (bit_length (\<lceil>1 / a\<rceil> - 1)))"

text \<open>The nearest integer, a tie going to the even one.\<close>

definition round_half_even :: "rat \<Rightarrow> int" where
  "round_half_even y =
     (let f = \<lfloor>y\<rfloor>; d = y - of_int f
      in if d < 1 / 2 then f else if 1 / 2 < d then f + 1 else if even f then f else f + 1)"

text \<open>
  Rounding to binary64, the exponent range unbounded above: a significand of 53 bits, so
  the spacing at \<open>x\<close> is \<open>2^(e - 52)\<close>, and \<open>2^(-1074)\<close> below the smallest normal number
  \<open>2^(-1022)\<close>.
\<close>

definition binary64 :: "rat \<Rightarrow> rat" where
  "binary64 x =
     (if x = 0 then 0
      else (let ulp = 2 powi (max (binary_exponent x) (- 1022) - 52)
            in ulp * of_int (round_half_even (x / ulp))))"

datatype pyfloat = Finite rat | Infinite

text \<open>
  The largest binary64 number is \<open>2^1024 - 2^971\<close>; an exact result rounds beyond it from
  \<open>2^1024 - 2^970\<close> on. The result of a float multiplication or division is then an
  infinity; the conversion of an \<open>int\<close> to float raises \<open>OverflowError\<close> instead.
\<close>

definition float_result :: "rat \<Rightarrow> pyfloat" where
  "float_result x = (if 2 ^ 1024 - 2 ^ 970 \<le> \<bar>x\<bar> then Infinite else Finite (binary64 x))"

definition float_of_int :: "int \<Rightarrow> error + rat" where
  "float_of_int n =
     (if 2 ^ 1024 - 2 ^ 970 \<le> \<bar>n\<bar> then Inl OverflowError else Inr (binary64 (of_int n)))"

text \<open>The product of two finite floats.\<close>

definition float_mul :: "rat \<Rightarrow> rat \<Rightarrow> pyfloat" where
  "float_mul x y = float_result (x * y)"

text \<open>A finite float divided by a float: a zero divisor raises.\<close>

definition float_div :: "rat \<Rightarrow> pyfloat \<Rightarrow> error + pyfloat" where
  "float_div x d =
     (case d of
        Infinite \<Rightarrow> Inr (Finite 0)
      | Finite y \<Rightarrow> if y = 0 then Inl ZeroDivisionError else Inr (float_result (x / y)))"

text \<open>\<open>int(x)\<close> truncates towards zero, and raises for an infinity.\<close>

definition int_of_float :: "pyfloat \<Rightarrow> error + int" where
  "int_of_float x =
     (case x of
        Infinite \<Rightarrow> Inl OverflowError
      | Finite y \<Rightarrow> Inr (if y < 0 then \<lceil>y\<rceil> else \<lfloor>y\<rfloor>))"

subsection \<open>wrap_text_to_width\<close>

text \<open>
  The character limit that \<open>wrap_text_to_width\<close> computes from the available width (the
  local \<open>max_chars\<close>, after both assignments). As in the call that \<open>main\<close> makes and in the
  defaults, \<open>available_width\<close> and \<open>avg_char_width\<close> are of type \<open>int\<close> and \<open>scale_factor\<close> is
  a finite float. \<open>avg_char_width * scale_factor\<close> converts \<open>avg_char_width\<close> to float and
  multiplies; \<open>available_width / char_width\<close> converts \<open>available_width\<close> to float first,
  then looks at the divisor, then divides.
\<close>

definition width_max_chars :: "int \<Rightarrow> rat \<Rightarrow> int \<Rightarrow> error + int" where
  "width_max_chars available_width scale_factor avg_char_width =
     (case float_of_int avg_char_width of
        Inl e \<Rightarrow> Inl e
      | Inr w \<Rightarrow>
          (let char_width = float_mul w scale_factor
           in case float_of_int available_width of
                Inl e \<Rightarrow> Inl e
              | Inr a \<Rightarrow>
                  (case float_div a char_width of
                     Inl e \<Rightarrow> Inl e
                   | Inr q \<Rightarrow>
                       (case int_of_float q of
                          Inl e \<Rightarrow> Inl e
                        | Inr n \<Rightarrow>
                            (let max_chars = max 1 n;
                                 max_chars = min max_chars 75
                             in Inr max_chars)))))"

definition wrap_text_to_width ::
  "unicode_db \<Rightarrow> ustring \<Rightarrow> int \<Rightarrow> rat \<Rightarrow> int \<Rightarrow> error + ustring list" where
  "wrap_text_to_width U text available_width scale_factor avg_char_width =
     (case width_max_chars available_width scale_factor avg_char_width of
        Inl e \<Rightarrow> Inl e
      | Inr max_chars \<Rightarrow> wrap_text U text max_chars)"

subsection \<open>main, from the text to the call of the renderer\<close>

text \<open>
  The part of \<open>main\<close> after the text has been read: the check for empty text,
  \<open>validate_text\<close>, the choice between the two wrapping paths, the check for an empty
  list of lines, and the call \<open>hand.write(lines=lines, ...)\<close>. The outcomes are the two
  \<open>sys.exit(1)\<close> with their messages, an uncaught exception, and the call of the renderer
  with the lines it is given.
\<close>

datatype outcome =
  No_text_provided
| No_valid_text_to_render
| Uncaught error
| Rendered "ustring list"

definition main ::
  "uchar set \<Rightarrow> unicode_db \<Rightarrow> ustring \<Rightarrow> int \<Rightarrow> int \<Rightarrow> int \<Rightarrow> int \<Rightarrow> outcome" where
  "main VALID_CHARS U text max_chars left_margin right_margin view_width =
     (if strip_is_empty text then No_text_provided
      else (let text = fst (validate_text VALID_CHARS text);
                available_width = view_width - left_margin - right_margin;
                wrapped = (if max_chars \<noteq> 75 then wrap_text U text max_chars
                           else wrap_text_to_width U text available_width (3 / 2) 10)
            in case wrapped of
                 Inl e \<Rightarrow> Uncaught e
               | Inr lines \<Rightarrow> if lines = [] then No_valid_text_to_render else Rendered lines))"


text \<open>
  What one pass of the loop of \<open>wrap_text\<close> appends to \<open>lines\<close> for a paragraph, read off
  the branches of \<open>wrap_paragraphs\<close>; used to state what the loop computes.
\<close>

definition paragraph_lines :: "unicode_db \<Rightarrow> int \<Rightarrow> ustring \<Rightarrow> error + ustring list" where
  "paragraph_lines U max_chars para =
     (if strip_is_empty para then Inr [[]]
      else (case textwrap_wrap U para max_chars of
              Inl e \<Rightarrow> Inl e
            | Inr wrapped \<Rightarrow> Inr (if wrapped \<noteq> [] then wrapped else [[]])))"

text \<open>
  What one pass of the loop body appends to \<open>cleaned\<close> for the character \<open>ch\<close>, read off
  the branches of \<open>validate_loop\<close>; used to state what the loop computes.
\<close>

definition emitted :: "uchar set \<Rightarrow> uchar \<Rightarrow> ustring" where
  "emitted VALID_CHARS ch =
     (if ch \<in> VALID_CHARS \<or> ch = NEWLINE then [ch]
      else if ch = TAB then [SPACE]
      else if ch = DQUOTE then [DQUOTE]
      else if ch \<in> {SQUOTE, LEFT_SQUOTE, RIGHT_SQUOTE, BACKTICK} then [SQUOTE]
      else if ch \<in> {EN_DASH, EM_DASH} then [HYPHEN]
      else if ch = ELLIPSIS then [PERIOD, PERIOD, PERIOD]
      else [])"

declare wrap_loop.simps [simp del]

section \<open>Properties of validate_text\<close>

lemma validate_loop_eq:
  "validate_loop V t cleaned bad =
     (cleaned @ concat (map (emitted V) t),
      bad \<union> {c \<in> set t. c \<notin> V \<and> c \<noteq> NEWLINE \<and> c \<noteq> TAB})"
proof (induction t arbitrary: cleaned bad)
  case Nil
  show ?case by simp
next
  case (Cons ch t)
  show ?case
    by (auto simp add: Cons.IH emitted_def)
qed

lemma validate_text_eq:
  "validate_text V t =
     (concat (map (emitted V) t), {c \<in> set t. c \<notin> V \<and> c \<noteq> NEWLINE \<and> c \<noteq> TAB})"
  by (simp add: validate_text_def validate_loop_eq)

lemma emitted_supported:
  "replacements_supported V \<Longrightarrow> c \<in> set (emitted V ch) \<Longrightarrow> c \<in> V \<or> c = NEWLINE"
  by (auto simp add: emitted_def replacements_supported_def split: if_splits)

lemma emitted_fixed: "ch \<in> V \<or> ch = NEWLINE \<Longrightarrow> emitted V ch = [ch]"
  by (simp add: emitted_def)

lemma concat_emitted_fixed:
  "\<forall>c\<in>set t. c \<in> V \<or> c = NEWLINE \<Longrightarrow> concat (map (emitted V) t) = t"
  by (induction t) (simp_all add: emitted_fixed)

text \<open>
  C6: for every input string made only of supported characters and newlines,
  \<open>validate_text\<close> returns the input unchanged (and records no invalid character).
\<close>

theorem validate_text_identity:
  assumes "\<forall>c\<in>set t. c \<in> V \<or> c = NEWLINE"
  shows "validate_text V t = (t, {})"
proof -
  have "concat (map (emitted V) t) = t"
    using assms by (rule concat_emitted_fixed)
  moreover have "{c \<in> set t. c \<notin> V \<and> c \<noteq> NEWLINE \<and> c \<noteq> TAB} = {}"
    using assms by auto
  ultimately show ?thesis
    by (simp add: validate_text_eq)
qed

theorem validate_text_identity_witness:
  "set [72, 105, 33, NEWLINE, NEWLINE, 121, 111, 117] \<subseteq> sample_alphabet \<union> {NEWLINE} \<and>
   validate_text sample_alphabet [72, 105, 33, NEWLINE, NEWLINE, 121, 111, 117] =
     ([72, 105, 33, NEWLINE, NEWLINE, 121, 111, 117], {})"
proof -
  have h: "\<forall>c\<in>set [72, 105, 33, NEWLINE, NEWLINE, 121, 111, 117]. c \<in> sample_alphabet \<or> c = NEWLINE"
    by (simp add: sample_alphabet_def)
  from validate_text_identity [OF h] h show ?thesis by auto
qed

text \<open>
  C7: \<open>validate_text\<close> is a total function without an error result (the source has no
  operation that can raise), and for every input string, the empty one included, every
  character of its output is a supported character or a newline, given that the alphabet
  contains the replacement characters.
\<close>

theorem validate_text_output_supported:
  assumes "replacements_supported V"
  shows "\<forall>c\<in>set (fst (validate_text V t)). c \<in> V \<or> c = NEWLINE"
  using assms by (auto simp add: validate_text_eq dest: emitted_supported)

theorem validate_text_output_supported_witness:
  "replacements_supported sample_alphabet \<and>
   fst (validate_text sample_alphabet [TAB, 97, EM_DASH, 8364, ELLIPSIS, NEWLINE, 81]) =
     [SPACE, 97, HYPHEN, PERIOD, PERIOD, PERIOD, NEWLINE] \<and>
   set (fst (validate_text sample_alphabet [TAB, 97, EM_DASH, 8364, ELLIPSIS, NEWLINE, 81]))
     \<subseteq> sample_alphabet \<union> {NEWLINE} \<and>
   fst (validate_text sample_alphabet []) = []"
proof -
  have h: "replacements_supported sample_alphabet"
    by (simp add: replacements_supported_def sample_alphabet_def)
  have e: "fst (validate_text sample_alphabet [TAB, 97, EM_DASH, 8364, ELLIPSIS, NEWLINE, 81]) =
     [SPACE, 97, HYPHEN, PERIOD, PERIOD, PERIOD, NEWLINE]"
    by (simp add: validate_text_def sample_alphabet_def)
  have n: "fst (validate_text sample_alphabet []) = []"
    by (simp add: validate_text_def)
  from validate_text_output_supported [OF h, of "[TAB, 97, EM_DASH, 8364, ELLIPSIS, NEWLINE, 81]"]
  show ?thesis using h e n by auto
qed

text \<open>
  C5: applying \<open>validate_text\<close> to its own output gives that output again, given that
  the alphabet contains the replacement characters.
\<close>

theorem validate_text_idempotent:
  assumes "replacements_supported V"
  shows "fst (validate_text V (fst (validate_text V x))) = fst (validate_text V x)"
proof -
  have "\<forall>c\<in>set (concat (map (emitted V) x)). c \<in> V \<or> c = NEWLINE"
    using assms by (auto dest: emitted_supported)
  then have "concat (map (emitted V) (concat (map (emitted V) x))) = concat (map (emitted V) x)"
    by (rule concat_emitted_fixed)
  then show ?thesis
    by (simp add: validate_text_eq)
qed

theorem validate_text_idempotent_witness:
  "replacements_supported sample_alphabet \<and>
   fst (validate_text sample_alphabet [LEFT_SQUOTE, 72, 105, RIGHT_SQUOTE, TAB, ELLIPSIS, 8364]) =
     [SQUOTE, 72, 105, SQUOTE, SPACE, PERIOD, PERIOD, PERIOD] \<and>
   fst (validate_text sample_alphabet [SQUOTE, 72, 105, SQUOTE, SPACE, PERIOD, PERIOD, PERIOD]) =
     [SQUOTE, 72, 105, SQUOTE, SPACE, PERIOD, PERIOD, PERIOD]"
proof -
  have h: "replacements_supported sample_alphabet"
    by (simp add: replacements_supported_def sample_alphabet_def)
  have e: "fst (validate_text sample_alphabet [LEFT_SQUOTE, 72, 105, RIGHT_SQUOTE, TAB, ELLIPSIS, 8364]) =
     [SQUOTE, 72, 105, SQUOTE, SPACE, PERIOD, PERIOD, PERIOD]"
    by (simp add: validate_text_def sample_alphabet_def)
  from validate_text_idempotent [OF h, of "[LEFT_SQUOTE, 72, 105, RIGHT_SQUOTE, TAB, ELLIPSIS, 8364]"]
  show ?thesis using h e by simp
qed

text \<open>
  C3, as stated, fails: the ellipsis character is outside the sample alphabet and is
  substituted by three periods, and yet it is recorded in the reported set.
\<close>

theorem substituted_character_is_recorded:
  "ELLIPSIS \<notin> sample_alphabet \<and>
   validate_text sample_alphabet [119, ELLIPSIS] = ([119, PERIOD, PERIOD, PERIOD], {ELLIPSIS})"
  by (simp add: validate_text_def sample_alphabet_def)

text \<open>
  C3, amended: for every input text, the set recorded and reported by \<open>validate_text\<close>
  contains exactly the characters of the input that are outside the supported set and
  are neither a newline nor a tab, whether or not they are substituted. A curly single
  quote or a backtick, an en or em dash, or an ellipsis character outside the supported
  set is emitted as its replacement (straight single quote, hyphen, three periods) and is
  also recorded in that set.
\<close>

theorem validate_text_records_every_invalid_character:
  "snd (validate_text V t) = {c \<in> set t. c \<notin> V \<and> c \<noteq> NEWLINE \<and> c \<noteq> TAB} \<and>
   (c \<notin> V \<and> c \<in> {LEFT_SQUOTE, RIGHT_SQUOTE, BACKTICK, EN_DASH, EM_DASH, ELLIPSIS} \<longrightarrow>
      fst (validate_text V (a @ [c] @ b)) =
        fst (validate_text V a) @
        (if c \<in> {LEFT_SQUOTE, RIGHT_SQUOTE, BACKTICK} then [SQUOTE]
         else if c \<in> {EN_DASH, EM_DASH} then [HYPHEN]
         else [PERIOD, PERIOD, PERIOD]) @
        fst (validate_text V b) \<and>
      c \<in> snd (validate_text V (a @ [c] @ b)))"
proof -
  have "emitted V c =
        (if c \<in> {LEFT_SQUOTE, RIGHT_SQUOTE, BACKTICK} then [SQUOTE]
         else if c \<in> {EN_DASH, EM_DASH} then [HYPHEN]
         else [PERIOD, PERIOD, PERIOD])"
    if "c \<notin> V" and "c \<in> {LEFT_SQUOTE, RIGHT_SQUOTE, BACKTICK, EN_DASH, EM_DASH, ELLIPSIS}"
    using that by (auto simp add: emitted_def)
  then show ?thesis
    by (auto simp add: validate_text_eq)
qed

theorem validate_text_records_every_invalid_character_witness:
  "(EM_DASH \<notin> sample_alphabet \<and>
    EM_DASH \<in> {LEFT_SQUOTE, RIGHT_SQUOTE, BACKTICK, EN_DASH, EM_DASH, ELLIPSIS}) \<and>
   validate_text sample_alphabet ([97] @ [EM_DASH] @ [98, 8364, TAB]) =
     ([97, HYPHEN, 98, SPACE], {EM_DASH, 8364}) \<and>
   fst (validate_text sample_alphabet [97]) = [97] \<and>
   fst (validate_text sample_alphabet [98, 8364, TAB]) = [98, SPACE]"
proof -
  have h: "EM_DASH \<notin> sample_alphabet \<and>
    EM_DASH \<in> {LEFT_SQUOTE, RIGHT_SQUOTE, BACKTICK, EN_DASH, EM_DASH, ELLIPSIS}"
    by (simp add: sample_alphabet_def)
  have e: "validate_text sample_alphabet ([97] @ [EM_DASH] @ [98, 8364, TAB]) =
     ([97, HYPHEN, 98, SPACE], {EM_DASH, 8364})"
    by (simp add: validate_text_def sample_alphabet_def insert_commute)
  have f: "fst (validate_text sample_alphabet [97]) = [97]"
    "fst (validate_text sample_alphabet [98, 8364, TAB]) = [98, SPACE]"
    by (simp_all add: validate_text_def sample_alphabet_def)
  from validate_text_records_every_invalid_character
         [of sample_alphabet "[97] @ [EM_DASH] @ [98, 8364, TAB]" EM_DASH "[97]" "[98, 8364, TAB]"]
  show ?thesis using h e f by simp
qed

section \<open>Properties of wrap_text\<close>

subsection \<open>The loop over the paragraphs\<close>

lemma split_newline_not_Nil: "split_newline t \<noteq> []"
  by (induction t) (auto split: list.splits)

lemma wrap_paragraphs_Cons:
  "wrap_paragraphs U m (p # ps) lines =
     (case paragraph_lines U m p of
        Inl e \<Rightarrow> Inl e
      | Inr l \<Rightarrow> wrap_paragraphs U m ps (lines @ l))"
  by (simp add: paragraph_lines_def split: sum.splits)



lemma wrap_paragraphs_total:
  "1 \<le> m \<Longrightarrow> \<exists>ls. wrap_paragraphs U m ps lines = Inr ls"
  by (induction ps arbitrary: lines) (auto simp add: textwrap_wrap_def wrap_chunks_def)

lemma paragraph_lines_not_Nil: "paragraph_lines U m p = Inr l \<Longrightarrow> l \<noteq> []"
  by (auto simp add: paragraph_lines_def split: if_splits sum.splits)

lemma wrap_paragraphs_not_Nil:
  "wrap_paragraphs U m ps lines = Inr ls \<Longrightarrow> ps \<noteq> [] \<or> lines \<noteq> [] \<Longrightarrow> ls \<noteq> []"
proof (induction ps arbitrary: lines)
  case Nil
  then show ?case by simp
next
  case (Cons p ps)
  from Cons.prems(1) obtain l where l: "paragraph_lines U m p = Inr l"
    and r: "wrap_paragraphs U m ps (lines @ l) = Inr ls"
    by (auto simp only: wrap_paragraphs_Cons split: sum.splits)
  from paragraph_lines_not_Nil [OF l] have "lines @ l \<noteq> []" by simp
  with Cons.IH [OF r] show ?case by simp
qed


subsection \<open>No line is longer than the width\<close>

lemma length_slice_to: "0 \<le> e \<Longrightarrow> int (length (slice_to e s)) \<le> e"
  by (simp add: slice_to_def slice_bound_def)

lemma rfind_less: "0 \<le> e \<Longrightarrow> rfind x s e < e"
proof -
  assume e: "0 \<le> e"
  have "int (length (slice_to e s)) \<le> e" using e by (rule length_slice_to)
  then show ?thesis
    using e by (auto simp add: rfind_def Let_def)
qed

lemma take_fitting_fits:
  "take_fitting width chunks cur_line cur_len = (chunks', cur_line', cur_len') \<Longrightarrow>
   cur_len = length (concat cur_line) \<Longrightarrow> cur_len \<le> width \<Longrightarrow>
   cur_len' = length (concat cur_line') \<and> cur_len' \<le> width"
proof (induction chunks arbitrary: cur_line cur_len)
  case Nil
  then show ?case by auto
next
  case (Cons c chunks)
  show ?case
  proof (cases "cur_len + length c \<le> width")
    case True
    with Cons.prems(1) have
      "take_fitting width chunks (cur_line @ [c]) (cur_len + length c) = (chunks', cur_line', cur_len')"
      by simp
    from Cons.IH [OF this] True Cons.prems(2) show ?thesis by simp
  next
    case False
    with Cons.prems show ?thesis by auto
  qed
qed

lemma handle_long_word_fits:
  assumes "handle_long_word c cs cur_line (int cur_len) (int width) = (chunks', cur_line')"
    and "1 \<le> width" and "cur_len \<le> width" and "cur_len = length (concat cur_line)"
  shows "length (concat cur_line') \<le> width"
proof -
  define space_left where "space_left = (if int width < 1 then 1 else int width - int cur_len)"
  define hyphen where "hyphen = rfind HYPHEN c space_left"
  define e where "e = (if int (length c) > space_left \<and> hyphen > 0 \<and>
                    (\<exists>x\<in>set (slice_to hyphen c). x \<noteq> HYPHEN)
                 then hyphen + 1 else space_left)"
  have sl: "space_left = int width - int cur_len" "0 \<le> space_left"
    using assms(2,3) by (simp_all add: space_left_def)
  have "hyphen < space_left" unfolding hyphen_def using sl(2) by (rule rfind_less)
  then have e: "0 \<le> e" "e \<le> space_left" using sl(2) by (auto simp add: e_def)
  have "handle_long_word c cs cur_line (int cur_len) (int width) =
          (slice_from e c # cs, cur_line @ [slice_to e c])"
    by (simp only: handle_long_word_def Let_def e_def hyphen_def space_left_def)
  then have "cur_line' = cur_line @ [slice_to e c]" using assms(1) by simp
  moreover have "int (length (slice_to e c)) \<le> int width - int cur_len"
    using length_slice_to [OF e(1), of c] e(2) sl(1) by simp
  ultimately show ?thesis using assms(4) by simp
qed

lemma length_concat_butlast: "length (concat (butlast xs)) \<le> length (concat xs)"
  by (induction xs) auto

lemma wrap_pass_fits:
  assumes "wrap_pass width chunks lines = (chunks', lines')"
    and "1 \<le> width" and "\<forall>l\<in>set lines. length l \<le> width"
  shows "\<forall>l\<in>set lines'. length l \<le> width"
proof -
  define chunks1 where
    "chunks1 = (if strip_is_empty (hd chunks) \<and> lines \<noteq> [] then tl chunks else chunks)"
  obtain chunks2 cur_line2 cur_len where tf: "take_fitting width chunks1 [] 0 = (chunks2, cur_line2, cur_len)"
    by (cases "take_fitting width chunks1 [] 0") auto
  define r where "r = (case chunks2 of
                [] \<Rightarrow> (chunks2, cur_line2)
              | c # cs \<Rightarrow>
                  if length c > width
                  then handle_long_word c cs cur_line2 (int cur_len) (int width)
                  else (chunks2, cur_line2))"
  define cur_line4 where "cur_line4 = (if snd r \<noteq> [] \<and> strip_is_empty (last (snd r))
                       then butlast (snd r) else snd r)"
  have res: "lines' = (if cur_line4 \<noteq> [] then lines @ [concat cur_line4] else lines)"
    using assms(1) tf
    by (auto simp add: wrap_pass_def chunks1_def [symmetric] r_def [symmetric] cur_line4_def Let_def
        split: prod.splits)
  from take_fitting_fits [OF tf] have c2: "cur_len = length (concat cur_line2)" "cur_len \<le> width"
    by simp_all
  have "length (concat (snd r)) \<le> width"
  proof (cases chunks2)
    case Nil
    then show ?thesis using c2 by (simp add: r_def)
  next
    case (Cons k ks)
    show ?thesis
    proof (cases "length k > width")
      case True
      then have "handle_long_word k ks cur_line2 (int cur_len) (int width) = (fst r, snd r)"
        using Cons by (simp add: r_def)
      from handle_long_word_fits [OF this assms(2) c2(2) c2(1)] show ?thesis .
    next
      case False
      then show ?thesis using Cons c2 by (simp add: r_def)
    qed
  qed
  moreover have "length (concat cur_line4) \<le> length (concat (snd r))"
    by (simp add: cur_line4_def length_concat_butlast)
  ultimately have "length (concat cur_line4) \<le> width" by simp
  then show ?thesis using assms(3) by (simp add: res)
qed

lemma wrap_loop_fits:
  "1 \<le> width \<Longrightarrow> \<forall>l\<in>set lines. length l \<le> width \<Longrightarrow>
   \<forall>l\<in>set (wrap_loop width chunks lines). length l \<le> width"
proof (induction width chunks lines rule: wrap_loop.induct)
  case (1 width chunks lines)
  show ?case
  proof (cases "chunks = []")
    case True
    then show ?thesis using "1.prems" by (simp add: wrap_loop.simps)
  next
    case False
    obtain chunks' lines' where p: "wrap_pass width chunks lines = (chunks', lines')"
      by (cases "wrap_pass width chunks lines") auto
    from wrap_pass_fits [OF p "1.prems"] have "\<forall>l\<in>set lines'. length l \<le> width" .
    from "1.IH" [OF False p [symmetric] "1.prems"(1) this]
    show ?thesis using False p by (simp add: wrap_loop.simps [of width chunks])
  qed
qed

lemma textwrap_wrap_fits:
  "textwrap_wrap U text width = Inr ls \<Longrightarrow> 1 \<le> width \<and> (\<forall>l\<in>set ls. int (length l) \<le> width)"
proof -
  assume a: "textwrap_wrap U text width = Inr ls"
  then have w: "1 \<le> width" and ls: "ls = wrap_loop (nat width) (split_chunks U text) []"
    by (auto simp add: textwrap_wrap_def wrap_chunks_def split: if_splits)
  have "\<forall>l\<in>set (wrap_loop (nat width) (split_chunks U text) []). length l \<le> nat width"
    by (rule wrap_loop_fits) (use w in simp_all)
  then show ?thesis using w ls by auto
qed

lemma paragraph_lines_fits:
  "paragraph_lines U m p = Inr ls \<Longrightarrow> m \<le> 75 \<Longrightarrow> \<forall>l\<in>set ls. length l \<le> 75"
  by (fastforce simp add: paragraph_lines_def split: if_splits sum.splits dest: textwrap_wrap_fits)

lemma wrap_paragraphs_fits:
  "wrap_paragraphs U m ps lines = Inr ls \<Longrightarrow> m \<le> 75 \<Longrightarrow> \<forall>l\<in>set lines. length l \<le> 75 \<Longrightarrow>
   \<forall>l\<in>set ls. length l \<le> 75"
proof (induction ps arbitrary: lines)
  case Nil
  then show ?case by simp
next
  case (Cons p ps)
  from Cons.prems(1) obtain l where l: "paragraph_lines U m p = Inr l"
    and r: "wrap_paragraphs U m ps (lines @ l) = Inr ls"
    by (auto simp only: wrap_paragraphs_Cons split: sum.splits)
  from paragraph_lines_fits [OF l Cons.prems(2)] Cons.prems(3)
  have "\<forall>x\<in>set (lines @ l). length x \<le> 75" by auto
  from Cons.IH [OF r Cons.prems(2) this] show ?case .
qed

subsection \<open>Evaluations\<close>







lemma split_chunks_single: "split_chunks U [97] = [[97]]"
  by (simp add: split_chunks_def munge_whitespace_def is_whitespace_def emdash_here_def)

lemma wrap_text_eighty:
  "wrap_text ascii_db (replicate 80 97) 100 = Inr [replicate 75 97, replicate 5 97]"
  by code_simp

subsection \<open>The character limit of wrap_text_to_width\<close>

text \<open>The exponent brackets the number.\<close>

lemma bit_length_bounds:
  "0 < n \<Longrightarrow> 2 ^ (bit_length n - 1) \<le> n \<and> n < 2 ^ bit_length n"
proof (induction n rule: bit_length.induct)
  case (1 n)
  show ?case
  proof (cases "n = 1")
    case True
    have "bit_length 1 = Suc 0"
      by (simp add: bit_length.simps)
    with True show ?thesis by simp
  next
    case False
    with "1.prems" have n2: "2 \<le> n" by simp
    hence pos: "0 < n div 2" by simp
    define b where "b = bit_length (n div 2)"
    have bl: "bit_length n = Suc b"
      using n2 unfolding b_def by (subst bit_length.simps) simp
    from "1.IH" [OF _ pos] n2 have IH: "2 ^ (b - 1) \<le> n div 2" "n div 2 < 2 ^ b"
      unfolding b_def by simp_all
    from IH(2) pos have "b \<noteq> 0" by (cases b) auto
    hence "(2::int) ^ b = 2 * 2 ^ (b - 1)" by (cases b) auto
    with IH(1) have lo: "2 ^ b \<le> n" by linarith
    from IH(2) have hi: "n < 2 * 2 ^ b" by linarith
    from lo hi show ?thesis by (simp add: bl)
  qed
qed

lemma bit_length_pos: "0 < n \<Longrightarrow> 0 < bit_length n"
  by (subst bit_length.simps) simp

lemma binary_exponent_bounds:
  assumes "x \<noteq> 0"
  shows "2 powi binary_exponent x \<le> \<bar>x\<bar> \<and> \<bar>x\<bar> < 2 powi (binary_exponent x + 1)"
proof (cases "1 \<le> \<bar>x\<bar>")
  case True
  define n where "n = \<lfloor>\<bar>x\<bar>\<rfloor>"
  define b where "b = bit_length n"
  from True have n: "0 < n" unfolding n_def by linarith
  from bit_length_bounds [OF n] have B: "2 ^ (b - 1) \<le> n" "n < 2 ^ b"
    unfolding b_def by simp_all
  from bit_length_pos [OF n] have b: "0 < b" unfolding b_def .
  have e: "binary_exponent x = int (b - 1)"
    using True b by (simp add: binary_exponent_def Let_def n_def b_def)
  have e1: "binary_exponent x + 1 = int b"
    using e b by simp
  have "(2::rat) ^ (b - 1) = of_int (2 ^ (b - 1))" by simp
  also have "\<dots> \<le> of_int n" using B(1) by (simp only: of_int_le_iff)
  also have "\<dots> \<le> \<bar>x\<bar>" unfolding n_def by simp
  finally have lo: "(2::rat) ^ (b - 1) \<le> \<bar>x\<bar>" .
  from B(2) have "n + 1 \<le> 2 ^ b" by simp
  hence "of_int (n + 1) \<le> (of_int (2 ^ b) :: rat)" by (simp only: of_int_le_iff)
  hence "of_int (n + 1) \<le> (2::rat) ^ b" by simp
  moreover have "\<bar>x\<bar> < of_int (n + 1)" unfolding n_def by linarith
  ultimately have hi: "\<bar>x\<bar> < (2::rat) ^ b" by (rule order_less_le_trans [rotated])
  have "2 powi binary_exponent x \<le> \<bar>x\<bar>"
    using lo by (simp only: e power_int_of_nat)
  moreover have "\<bar>x\<bar> < 2 powi (binary_exponent x + 1)"
    using hi by (simp only: e1 power_int_of_nat)
  ultimately show ?thesis ..
next
  case False
  with assms have x: "0 < \<bar>x\<bar>" "\<bar>x\<bar> < 1" by simp_all
  hence inv: "1 < 1 / \<bar>x\<bar>" by simp
  define m where "m = \<lceil>1 / \<bar>x\<bar>\<rceil> - 1"
  define b where "b = bit_length m"
  from inv have m: "0 < m" unfolding m_def by linarith
  from bit_length_bounds [OF m] have B: "2 ^ (b - 1) \<le> m" "m < 2 ^ b"
    unfolding b_def by simp_all
  from bit_length_pos [OF m] have b: "0 < b" unfolding b_def .
  have e: "binary_exponent x = - int b"
    using False by (simp add: binary_exponent_def Let_def m_def b_def)
  have e1: "binary_exponent x + 1 = - int (b - 1)"
    using e b by simp
  from B(2) have "m + 1 \<le> 2 ^ b" by simp
  hence "of_int (m + 1) \<le> (of_int (2 ^ b) :: rat)" by (simp only: of_int_le_iff)
  hence "of_int (m + 1) \<le> (2::rat) ^ b" by simp
  moreover have "1 / \<bar>x\<bar> \<le> of_int (m + 1)" unfolding m_def by simp
  ultimately have "1 / \<bar>x\<bar> \<le> (2::rat) ^ b" by (rule order_trans [rotated])
  hence lo: "1 / (2::rat) ^ b \<le> \<bar>x\<bar>"
    using x(1) by (simp add: field_simps)
  have "(of_int (2 ^ (b - 1)) :: rat) \<le> of_int m" using B(1) by (simp only: of_int_le_iff)
  hence "(2::rat) ^ (b - 1) \<le> of_int m" by simp
  moreover have "of_int m < 1 / \<bar>x\<bar>" unfolding m_def by linarith
  ultimately have "(2::rat) ^ (b - 1) < 1 / \<bar>x\<bar>" by (rule order_le_less_trans)
  hence hi: "\<bar>x\<bar> < 1 / (2::rat) ^ (b - 1)"
    using x(1) by (simp add: field_simps)
  have "2 powi binary_exponent x \<le> \<bar>x\<bar>"
    using lo by (simp only: e power_int_minus_divide power_int_of_nat)
  moreover have "\<bar>x\<bar> < 2 powi (binary_exponent x + 1)"
    using hi by (simp only: e1 power_int_minus_divide power_int_of_nat)
  ultimately show ?thesis ..
qed

lemma binary_exponent_nonneg:
  assumes "1 \<le> \<bar>x\<bar>"
  shows "0 \<le> binary_exponent x"
proof (rule ccontr)
  assume "\<not> 0 \<le> binary_exponent x"
  hence "binary_exponent x + 1 \<le> 0" by simp
  hence "(2::rat) powi (binary_exponent x + 1) \<le> 2 powi 0"
    by (intro power_int_increasing) simp_all
  moreover from assms have "x \<noteq> 0" by auto
  from binary_exponent_bounds [OF this] have "\<bar>x\<bar> < 2 powi (binary_exponent x + 1)" by simp
  ultimately show False using assms by simp
qed

lemma binary_exponent_less:
  assumes "x \<noteq> 0" and "\<bar>x\<bar> < 2 ^ k"
  shows "binary_exponent x < int k"
proof -
  from binary_exponent_bounds [OF assms(1)] assms(2)
  have "(2::rat) powi binary_exponent x < 2 powi int k" by simp
  thus ?thesis by (rule power_int_le_imp_less_exp [rotated]) simp_all
qed

lemma round_half_even_error: "\<bar>of_int (round_half_even y) - y\<bar> \<le> 1 / 2"
proof -
  have "of_int \<lfloor>y\<rfloor> \<le> y" "y < of_int \<lfloor>y\<rfloor> + 1" by linarith+
  thus ?thesis by (auto simp add: round_half_even_def Let_def)
qed

lemma round_half_even_of_int [simp]: "round_half_even (of_int n) = n"
  by (simp add: round_half_even_def)

lemma round_half_even_ge: "of_int m \<le> y \<Longrightarrow> m \<le> round_half_even y"
proof -
  assume "of_int m \<le> y"
  hence "m \<le> \<lfloor>y\<rfloor>" by (simp add: le_floor_iff)
  thus ?thesis by (auto simp add: round_half_even_def Let_def)
qed

lemma round_half_even_le: "y \<le> of_int m \<Longrightarrow> round_half_even y \<le> m"
proof (cases "y = of_int m")
  case True
  thus ?thesis by simp
next
  case False
  assume "y \<le> of_int m"
  with False have "y < of_int m" by simp
  hence "\<lfloor>y\<rfloor> < m" by (simp add: floor_less_iff)
  thus ?thesis by (auto simp add: round_half_even_def Let_def)
qed

text \<open>
  Rounding to binary64: the error is at most half the spacing, a number that is not
  positive is not rounded to a positive one, an integer below \<open>2^53\<close> is not changed, and a
  number is not rounded below an integer under \<open>2^53\<close> that it is not below.
\<close>

lemma binary64_unfold:
  assumes "x \<noteq> 0"
  shows "binary64 x = 2 powi (max (binary_exponent x) (- 1022) - 52)
           * of_int (round_half_even (x / 2 powi (max (binary_exponent x) (- 1022) - 52)))"
  using assms by (simp add: binary64_def Let_def)

lemma binary64_error:
  assumes "x \<noteq> 0"
  shows "\<bar>binary64 x - x\<bar> \<le> 2 powi (max (binary_exponent x) (- 1022) - 52) / 2"
proof -
  define ulp :: rat where "ulp = 2 powi (max (binary_exponent x) (- 1022) - 52)"
  have u: "0 < ulp" unfolding ulp_def by simp
  have b: "binary64 x = ulp * of_int (round_half_even (x / ulp))"
    unfolding ulp_def by (rule binary64_unfold [OF assms])
  have "binary64 x - x = ulp * (of_int (round_half_even (x / ulp)) - x / ulp)"
    using u by (simp add: b field_simps)
  hence "\<bar>binary64 x - x\<bar> = ulp * \<bar>of_int (round_half_even (x / ulp)) - x / ulp\<bar>"
    using u by (simp add: abs_mult)
  also have "\<dots> \<le> ulp * (1 / 2)"
    using u by (intro mult_left_mono round_half_even_error) simp
  finally show ?thesis by (simp add: ulp_def)
qed

lemma binary64_nonpos:
  assumes "x \<le> 0"
  shows "binary64 x \<le> 0"
proof (cases "x = 0")
  case True
  thus ?thesis by (simp add: binary64_def)
next
  case False
  define ulp :: rat where "ulp = 2 powi (max (binary_exponent x) (- 1022) - 52)"
  have u: "0 < ulp" unfolding ulp_def by simp
  have b: "binary64 x = ulp * of_int (round_half_even (x / ulp))"
    unfolding ulp_def by (rule binary64_unfold [OF False])
  from assms u have "x / ulp \<le> of_int 0" by (simp add: divide_le_0_iff)
  hence "round_half_even (x / ulp) \<le> 0" by (rule round_half_even_le)
  hence "(of_int (round_half_even (x / ulp)) :: rat) \<le> 0" by simp
  with u show ?thesis unfolding b by (simp add: mult_le_0_iff)
qed

lemma ulp_small:
  assumes "0 \<le> e" and "e \<le> 52"
  shows "(2::rat) powi (max e (- 1022) - 52) = 1 / 2 ^ nat (52 - e)"
proof -
  from assms have "max e (- 1022) - 52 = - int (nat (52 - e))" by simp
  thus ?thesis by (simp only: power_int_minus_divide power_int_of_nat)
qed

lemma ulp_large:
  assumes "52 \<le> e"
  shows "(2::rat) powi (max e (- 1022) - 52) = 2 ^ nat (e - 52)"
proof -
  from assms have "max e (- 1022) - 52 = int (nat (e - 52))" by simp
  thus ?thesis by (simp only: power_int_of_nat)
qed

lemma binary64_of_int:
  assumes "\<bar>n\<bar> < 2 ^ 53"
  shows "binary64 (of_int n) = of_int n"
proof (cases "n = 0")
  case True
  thus ?thesis by (simp add: binary64_def)
next
  case False
  define x :: rat where "x = of_int n"
  define e where "e = binary_exponent x"
  define k where "k = nat (52 - e)"
  from False have x0: "x \<noteq> 0" unfolding x_def by simp
  from False have "1 \<le> \<bar>n\<bar>" by simp
  hence "(1::rat) \<le> of_int \<bar>n\<bar>" by (simp only: of_int_1_le_iff)
  hence x1: "1 \<le> \<bar>x\<bar>" unfolding x_def by simp
  from assms have "(of_int \<bar>n\<bar> :: rat) < of_int (2 ^ 53)" by (simp only: of_int_less_iff)
  hence x53: "\<bar>x\<bar> < 2 ^ 53" unfolding x_def by simp
  from binary_exponent_nonneg [OF x1] have e0: "0 \<le> e" unfolding e_def .
  from binary_exponent_less [OF x0 x53] have e53: "e \<le> 52" unfolding e_def by simp
  have ulp: "2 powi (max (binary_exponent x) (- 1022) - 52) = 1 / (2::rat) ^ k"
    unfolding k_def e_def [symmetric] by (rule ulp_small [OF e0 e53])
  have "x / (1 / 2 ^ k) = of_int (n * 2 ^ k)" unfolding x_def by simp
  hence "round_half_even (x / (1 / 2 ^ k)) = n * 2 ^ k"
    by (simp only: round_half_even_of_int)
  hence "binary64 x = (1 / 2 ^ k) * of_int (n * 2 ^ k)"
    by (simp only: binary64_unfold [OF x0] ulp)
  thus ?thesis unfolding x_def by simp
qed

lemma binary64_ge:
  assumes c: "1 \<le> c" "c < 2 ^ 53" and x: "of_int c \<le> x"
  shows "of_int c \<le> binary64 x"
proof -
  define e where "e = binary_exponent x"
  from c(1) have "(1::rat) \<le> of_int c" by simp
  with x have x1: "1 \<le> x" by simp
  hence x0: "x \<noteq> 0" and xa: "\<bar>x\<bar> = x" by simp_all
  from x1 have "1 \<le> \<bar>x\<bar>" by simp
  from binary_exponent_nonneg [OF this] have e0: "0 \<le> e" unfolding e_def .
  show ?thesis
  proof (cases "e \<le> 52")
    case True
    define k where "k = nat (52 - e)"
    have ulp: "2 powi (max (binary_exponent x) (- 1022) - 52) = 1 / (2::rat) ^ k"
      unfolding k_def e_def [symmetric] by (rule ulp_small [OF e0 True])
    have "of_int (c * 2 ^ k) = of_int c * (2::rat) ^ k" by simp
    also have "\<dots> \<le> x * 2 ^ k" using x by simp
    finally have "of_int (c * 2 ^ k) \<le> x / (1 / 2 ^ k)" by simp
    hence "c * 2 ^ k \<le> round_half_even (x / (1 / 2 ^ k))" by (rule round_half_even_ge)
    hence "(of_int (c * 2 ^ k) :: rat) \<le> of_int (round_half_even (x / (1 / 2 ^ k)))"
      by (simp only: of_int_le_iff)
    hence "(1 / 2 ^ k) * (of_int (c * 2 ^ k) :: rat)
             \<le> (1 / 2 ^ k) * of_int (round_half_even (x / (1 / 2 ^ k)))"
      by (intro mult_left_mono) simp_all
    thus ?thesis by (simp only: binary64_unfold [OF x0] ulp) simp
  next
    case False
    define j where "j = nat (e - 52)"
    from False have e52: "52 \<le> e" and j1: "1 \<le> j" unfolding j_def by simp_all
    have ulp: "2 powi (max (binary_exponent x) (- 1022) - 52) = (2::rat) ^ j"
      unfolding j_def e_def [symmetric] by (rule ulp_large [OF e52])
    have "e = int (j + 52)" using e52 unfolding j_def by simp
    hence "(2::rat) powi e = 2 ^ (j + 52)" by (simp only: power_int_of_nat)
    with binary_exponent_bounds [OF x0] xa have "(2::rat) ^ (j + 52) \<le> x"
      unfolding e_def by simp
    hence "(2::rat) ^ j * 2 ^ 52 \<le> x" by (simp only: power_add)
    hence "of_int (2 ^ 52) \<le> x / 2 ^ j" by (simp add: field_simps)
    hence "2 ^ 52 \<le> round_half_even (x / 2 ^ j)" by (rule round_half_even_ge)
    hence "(of_int (2 ^ 52) :: rat) \<le> of_int (round_half_even (x / 2 ^ j))"
      by (simp only: of_int_le_iff)
    hence "(2::rat) ^ j * of_int (2 ^ 52) \<le> 2 ^ j * of_int (round_half_even (x / 2 ^ j))"
      by (intro mult_left_mono) simp_all
    hence "(2::rat) ^ j * 2 ^ 52 \<le> binary64 x"
      by (simp only: binary64_unfold [OF x0] ulp) simp
    moreover have "(2::rat) ^ 1 \<le> 2 ^ j" using j1 by (intro power_increasing) simp_all
    hence "(2::rat) ^ 53 \<le> 2 ^ j * 2 ^ 52" by simp
    moreover from c(2) have "(of_int c :: rat) < of_int (2 ^ 53)" by (simp only: of_int_less_iff)
    hence "(of_int c :: rat) < 2 ^ 53" by simp
    ultimately show ?thesis by linarith
  qed
qed

lemma binary64_bound:
  assumes "\<bar>x\<bar> < 2 ^ 1024 - 2 ^ 970"
  shows "\<bar>binary64 x\<bar> < 2 ^ 1024"
proof (cases "x = 0")
  case True
  thus ?thesis by (simp add: binary64_def)
next
  case False
  from assms have "\<bar>x\<bar> < 2 ^ 1024" by simp
  from binary_exponent_less [OF False this] have "binary_exponent x \<le> 1023" by simp
  hence "max (binary_exponent x) (- 1022) - 52 \<le> 971" by simp
  hence "(2::rat) powi (max (binary_exponent x) (- 1022) - 52) \<le> 2 powi 971"
    by (intro power_int_increasing) simp_all
  with binary64_error [OF False] have "\<bar>binary64 x - x\<bar> \<le> 2 powi 971 / 2" by linarith
  hence "\<bar>binary64 x - x\<bar> \<le> 2 ^ 970" by simp
  with assms show ?thesis by linarith
qed

text \<open>
  The limit with the default constants: \<open>char_width\<close> is 15.0; the quotient of an
  available width from 1 to 1124 by 15.0 is rounded by less than 1/15, so that its integer
  part is that of the exact quotient.
\<close>

lemma float_of_int_10: "float_of_int 10 = Inr 10"
  using binary64_of_int [of 10] by (simp add: float_of_int_def)

lemma float_mul_default: "float_mul 10 (3 / 2) = Finite 15"
  using binary64_of_int [of 15] by (simp add: float_mul_def float_result_def)

lemma width_max_chars_default:
  assumes "\<bar>a\<bar> < 2 ^ 1024 - 2 ^ 970"
  shows "width_max_chars a (3 / 2) 10
           = Inr (min (max 1 (let q = binary64 (binary64 (of_int a) / 15)
                              in if q < 0 then \<lceil>q\<rceil> else \<lfloor>q\<rfloor>)) 75)"
proof -
  define x where "x = binary64 (of_int a)"
  have fa: "float_of_int a = Inr x"
    using assms by (simp add: float_of_int_def x_def)
  from assms have "(of_int \<bar>a\<bar> :: rat) < of_int (2 ^ 1024 - 2 ^ 970)"
    by (simp only: of_int_less_iff)
  hence "\<bar>of_int a :: rat\<bar> < 2 ^ 1024 - 2 ^ 970" by simp
  hence "\<bar>x\<bar> < 2 ^ 1024" unfolding x_def by (rule binary64_bound)
  hence nov: "\<not> 2 ^ 1024 - 2 ^ 970 \<le> \<bar>x / 15\<bar>" by simp
  have fd: "float_div x (Finite 15) = Inr (Finite (binary64 (x / 15)))"
    using nov by (simp add: float_div_def float_result_def)
  show ?thesis
    unfolding x_def [symmetric]
    by (simp add: width_max_chars_def float_of_int_10 float_mul_default fa fd
        int_of_float_def Let_def)
qed

lemma quotient_floor:
  assumes "1 \<le> a" and "a < 1125"
  shows "0 \<le> binary64 (of_int a / 15) \<and> \<lfloor>binary64 (of_int a / 15)\<rfloor> = a div 15"
proof (cases "a mod 15 = 0")
  case True
  hence "a = 15 * (a div 15)" by presburger
  hence "(of_int a :: rat) = 15 * of_int (a div 15)" by (metis of_int_mult of_int_numeral)
  hence y: "(of_int a :: rat) / 15 = of_int (a div 15)" by simp
  from assms have k: "0 \<le> a div 15" "a div 15 < 2 ^ 53" by simp_all
  hence "binary64 (of_int (a div 15)) = of_int (a div 15)"
    by (intro binary64_of_int) simp
  with k(1) show ?thesis by (simp add: y)
next
  case False
  define k where "k = a div 15"
  define r where "r = a mod 15"
  define y :: rat where "y = of_int a / 15"
  from False have r: "1 \<le> r" "r \<le> 14" unfolding r_def by presburger+
  from assms have k0: "0 \<le> k" unfolding k_def by simp
  have "a = 15 * k + r" unfolding k_def r_def by simp
  hence "(of_int a :: rat) = 15 * of_int k + of_int r" by (metis of_int_add of_int_mult of_int_numeral)
  hence yk: "y = of_int k + of_int r / 15" unfolding y_def by simp
  from r have "(1::rat) \<le> of_int r" "(of_int r :: rat) \<le> 14" by simp_all
  with yk have lo: "of_int k + 1 / 15 \<le> y" and hi: "y \<le> of_int k + 14 / 15" by simp_all
  from k0 have "(0::rat) \<le> of_int k" by simp
  with lo have y0: "0 < y" by linarith
  hence y_ne: "y \<noteq> 0" by simp
  from assms(2) have "(of_int a :: rat) < 1125" by simp
  hence "y < 2 ^ 7" unfolding y_def by simp
  with y0 have "\<bar>y\<bar> < 2 ^ 7" by simp
  from binary_exponent_less [OF y_ne this] have "binary_exponent y \<le> 6" by simp
  hence "max (binary_exponent y) (- 1022) - 52 \<le> - 46" by simp
  hence "(2::rat) powi (max (binary_exponent y) (- 1022) - 52) \<le> 2 powi (- 46)"
    by (intro power_int_increasing) simp_all
  with binary64_error [OF y_ne] have "\<bar>binary64 y - y\<bar> \<le> 2 powi (- 46) / 2" by linarith
  hence "\<bar>binary64 y - y\<bar> < 1 / 15" by simp
  with lo hi have q: "of_int k < binary64 y" "binary64 y < of_int k + 1" by linarith+
  hence "\<lfloor>binary64 y\<rfloor> = k" by (intro floor_unique) simp_all
  moreover from q(1) \<open>(0::rat) \<le> of_int k\<close> have "0 \<le> binary64 y" by linarith
  ultimately show ?thesis unfolding y_def k_def by simp
qed

lemma default_max_chars:
  assumes "\<bar>a\<bar> < 2 ^ 1024 - 2 ^ 970"
  shows "width_max_chars a (3 / 2) 10
           = Inr (max 1 (min 75 \<lfloor>rat_of_int (max 1 a) / 15\<rfloor>))"
proof -
  define q where "q = binary64 (binary64 (of_int a) / 15)"
  have w: "width_max_chars a (3 / 2) 10
             = Inr (min (max 1 (if q < 0 then \<lceil>q\<rceil> else \<lfloor>q\<rfloor>)) 75)"
    unfolding q_def using width_max_chars_default [OF assms] by (simp add: Let_def)
  consider "a \<le> 0" | "1 \<le> a" "a < 1125" | "1125 \<le> a" by linarith
  thus ?thesis
  proof cases
    case 1
    hence "(of_int a :: rat) \<le> 0" by simp
    hence "binary64 (of_int a) \<le> 0" by (rule binary64_nonpos)
    hence "binary64 (of_int a) / 15 \<le> 0" by simp
    hence "q \<le> 0" unfolding q_def by (rule binary64_nonpos)
    hence "(if q < 0 then \<lceil>q\<rceil> else \<lfloor>q\<rfloor>) \<le> 0"
      by (auto simp add: ceiling_le_iff)
    moreover from 1 have "max 1 a = 1" by simp
    ultimately show ?thesis by (simp add: w)
  next
    case 2
    hence "binary64 (of_int a) = (of_int a :: rat)" by (intro binary64_of_int) simp
    with quotient_floor [OF 2] have "0 \<le> q" "\<lfloor>q\<rfloor> = a div 15"
      unfolding q_def by simp_all
    moreover from 2 have "max 1 a = a" "a div 15 < 75" by simp_all
    moreover have "\<lfloor>rat_of_int a / 15\<rfloor> = a div 15"
      using floor_divide_of_int_eq [of a 15, where ?'a = rat] by simp
    ultimately show ?thesis by (simp add: w)
  next
    case 3
    hence "of_int 1125 \<le> (of_int a :: rat)" by (simp only: of_int_le_iff)
    hence "of_int 1125 \<le> binary64 (of_int a)" by (intro binary64_ge) simp_all
    hence "of_int 75 \<le> binary64 (of_int a) / 15" by simp
    hence "of_int 75 \<le> q" unfolding q_def by (intro binary64_ge) simp_all
    hence "75 \<le> \<lfloor>q\<rfloor>" "\<not> q < 0" by (simp_all add: le_floor_iff)
    moreover from 3 have "max 1 a = a" "75 \<le> a div 15" by simp_all
    moreover have "\<lfloor>rat_of_int a / 15\<rfloor> = a div 15"
      using floor_divide_of_int_eq [of a 15, where ?'a = rat] by simp
    ultimately show ?thesis by (simp add: w)
  qed
qed


lemma width_max_chars_900: "width_max_chars 900 (3 / 2) 10 = Inr 60"
  using default_max_chars [of 900] by simp

subsection \<open>The claims about wrap_text and main\<close>

text \<open>
  C4: for every input text and every requested \<open>max_chars\<close>, values above 75 included,
  every line that \<open>wrap_text\<close> produces has at most 75 characters; and \<open>wrap_text\<close> does
  produce its lines whenever \<open>max_chars\<close> is at least 1.
\<close>

theorem wrap_text_line_length:
  "(\<forall>lines. wrap_text U t max_chars = Inr lines \<longrightarrow> (\<forall>line\<in>set lines. length line \<le> 75)) \<and>
   (1 \<le> max_chars \<longrightarrow> (\<exists>lines. wrap_text U t max_chars = Inr lines))"
proof (intro conjI allI impI)
  fix lines
  assume "wrap_text U t max_chars = Inr lines"
  then have "wrap_paragraphs U (min max_chars 75) (split_newline t) [] = Inr lines"
    by (simp add: wrap_text_def)
  then show "\<forall>line\<in>set lines. length line \<le> 75"
    by (rule wrap_paragraphs_fits) simp_all
next
  assume "1 \<le> max_chars"
  then have "1 \<le> min max_chars 75" by simp
  then show "\<exists>lines. wrap_text U t max_chars = Inr lines"
    unfolding wrap_text_def Let_def by (rule wrap_paragraphs_total)
qed

theorem wrap_text_line_length_witness:
  "wrap_text ascii_db (replicate 80 97) 100 = Inr [replicate 75 97, replicate 5 97] \<and>
   list_all (\<lambda>line. length line \<le> 75) [replicate 75 97, replicate 5 97] \<and>
   (1::int) \<le> 100"
proof -
  from wrap_text_line_length [of ascii_db "replicate 80 97" 100] wrap_text_eighty
  have "\<forall>line\<in>set [replicate 75 (97::nat), replicate 5 97]. length line \<le> 75"
    by blast
  then show ?thesis
    using wrap_text_eighty by (simp add: list_all_iff)
qed

text \<open>
  C10: for every input string, the empty one included, and every \<open>max_chars\<close> of at least
  1, \<open>wrap_text\<close> returns a list with at least one element; whenever it returns a list, the
  list is not empty, so \<open>main\<close> never takes the exit "No valid text to render".
\<close>

theorem wrap_text_never_empty:
  "(1 \<le> max_chars \<longrightarrow> (\<exists>lines. wrap_text U t max_chars = Inr lines \<and> lines \<noteq> [])) \<and>
   (\<forall>m lines. wrap_text U t m = Inr lines \<longrightarrow> lines \<noteq> []) \<and>
   main V U t max_chars left_margin right_margin view_width \<noteq> No_valid_text_to_render"
proof -
  have ne: "lines \<noteq> []" if "wrap_text U s m = Inr lines" for s m lines
  proof -
    from that have "wrap_paragraphs U (min m 75) (split_newline s) [] = Inr lines"
      by (simp add: wrap_text_def)
    then show ?thesis
      by (rule wrap_paragraphs_not_Nil) (simp add: split_newline_not_Nil)
  qed
  have total: "\<exists>lines. wrap_text U t max_chars = Inr lines" if "1 \<le> max_chars"
  proof -
    from that have "1 \<le> min max_chars 75" by simp
    then show ?thesis
      unfolding wrap_text_def Let_def by (rule wrap_paragraphs_total)
  qed
  have "main V U t max_chars left_margin right_margin view_width \<noteq> No_valid_text_to_render"
    by (auto simp add: main_def Let_def wrap_text_to_width_def split: sum.splits dest: ne)
  then show ?thesis
    using ne total by blast
qed

theorem wrap_text_never_empty_witness:
  "(1::int) \<le> 1 \<and> wrap_text ascii_db [] 1 = Inr [[]] \<and> [[]] \<noteq> ([] :: ustring list) \<and>
   main sample_alphabet ascii_db [] 1 50 50 1000 \<noteq> No_valid_text_to_render"
proof -
  have e: "wrap_text ascii_db [] 1 = Inr [[]]"
    by (simp add: wrap_text_def strip_is_empty_def)
  from wrap_text_never_empty [of 1 ascii_db "[]" sample_alphabet 50 50 1000] e
  show ?thesis by simp
qed

text \<open>
  C2, on the code: \<open>wrap_text\<close> passes a \<open>max_chars\<close> below 1 on to
  \<open>textwrap.wrap\<close>, which raises \<open>ValueError\<close> for a paragraph that is not blank; with
  \<open>max_chars = 1\<close> the same text is wrapped. \<open>main\<close> ends with the uncaught exception.
\<close>

theorem wrap_text_zero_max_chars_raises:
  "wrap_text U [97] 0 = Inl ValueError \<and>
   wrap_text U [97] 1 = Inr [[97]] \<and>
   main sample_alphabet U [97] 0 50 50 1000 = Uncaught ValueError"
proof -
  have w: "wrap_loop (Suc 0) [[97]] [] = [[97]]"
    by (simp add: wrap_loop.simps wrap_pass_def strip_is_empty_def py_isspace_def)
  have a: "wrap_text U [97] 0 = Inl ValueError"
    by (simp add: wrap_text_def strip_is_empty_def py_isspace_def textwrap_wrap_def
        wrap_chunks_def)
  have b: "wrap_text U [97] 1 = Inr [[97]]"
    by (simp add: wrap_text_def strip_is_empty_def py_isspace_def textwrap_wrap_def
        wrap_chunks_def split_chunks_single w)
  have "fst (validate_text sample_alphabet [97]) = [97]"
    by (simp add: validate_text_def sample_alphabet_def)
  then have "main sample_alphabet U [97] 0 50 50 1000 = Uncaught ValueError"
    by (simp add: main_def strip_is_empty_def py_isspace_def a)
  then show ?thesis using a b by simp
qed

text \<open>
  C1, on the code: a text of one unsupported character that has no substitution (the
  euro sign) passes the check for empty text, is emptied by \<open>validate_text\<close>, and is
  wrapped into the single line \<open>''\<close>; \<open>main\<close> hands that list to the renderer.
\<close>

theorem main_renders_text_emptied_by_validation:
  "\<not> strip_is_empty [8364] \<and>
   validate_text sample_alphabet [8364] = ([], {8364}) \<and>
   main sample_alphabet U [8364] 75 50 50 1000 = Rendered [[]]"
  by (simp add: main_def strip_is_empty_def py_isspace_def validate_text_def sample_alphabet_def
      wrap_text_to_width_def width_max_chars_900 wrap_text_def)






end
